theory Spec2Isabelle
  imports Main "HOL-Library.Signed_Division"
begin

unbundle bit_operations_syntax

section \<open>Integer element types (sequence.go, TInt)\<close>

text \<open>
  The constraint \<open>TInt\<close> of sequence.go lists the ten integer types an element of a range
  can have. A value of such a type is represented by the mathematical integer it denotes;
  every arithmetic operation of the source is followed by the conversion \<open>conv\<close> to the
  type, which writes out the wrap-around of Go's fixed-width arithmetic. The types \<open>int\<close>
  and \<open>uint\<close> are taken 64 bits wide, as on the 64-bit targets of Go.
\<close>

datatype TInt =
  T_int | T_int8 | T_int16 | T_int32 | T_int64 |
  T_uint | T_uint8 | T_uint16 | T_uint32 | T_uint64

fun width :: "TInt \<Rightarrow> nat" where
  "width T_int = 64"
| "width T_int8 = 8"
| "width T_int16 = 16"
| "width T_int32 = 32"
| "width T_int64 = 64"
| "width T_uint = 64"
| "width T_uint8 = 8"
| "width T_uint16 = 16"
| "width T_uint32 = 32"
| "width T_uint64 = 64"

fun is_signed :: "TInt \<Rightarrow> bool" where
  "is_signed T_int = True"
| "is_signed T_int8 = True"
| "is_signed T_int16 = True"
| "is_signed T_int32 = True"
| "is_signed T_int64 = True"
| "is_signed T_uint = False"
| "is_signed T_uint8 = False"
| "is_signed T_uint16 = False"
| "is_signed T_uint32 = False"
| "is_signed T_uint64 = False"

text \<open>The least and the greatest value a type represents.\<close>

definition min_of :: "TInt \<Rightarrow> int" where
  "min_of ty = (if is_signed ty then - (2 ^ (width ty - 1)) else 0)"

definition max_of :: "TInt \<Rightarrow> int" where
  "max_of ty = (if is_signed ty then 2 ^ (width ty - 1) - 1 else 2 ^ width ty - 1)"

definition in_range :: "TInt \<Rightarrow> int \<Rightarrow> bool" where
  "in_range ty x \<longleftrightarrow> min_of ty \<le> x \<and> x \<le> max_of ty"

text \<open>
  The conversion \<open>T(x)\<close>, and the result of every operation on \<open>T\<close>: the value of the type
  congruent to \<open>x\<close> modulo \<open>2 ^ width\<close> (two's complement for the signed types).
\<close>

definition conv :: "TInt \<Rightarrow> int \<Rightarrow> int" where
  "conv ty x =
     (if is_signed ty
      then (x + 2 ^ (width ty - 1)) mod 2 ^ width ty - 2 ^ (width ty - 1)
      else x mod 2 ^ width ty)"

text \<open>The shift \<open>v << bits\<close> on a value of type \<open>T\<close>.\<close>

definition shl :: "TInt \<Rightarrow> int \<Rightarrow> nat \<Rightarrow> int" where
  "shl ty v bits = conv ty (push_bit bits v)"

section \<open>Bounds of a type, computed as the source does (sequence.go)\<close>

text \<open>
  \<open>countBits\<close> sets \<open>v = 1\<close> and walks the array \<open>[4]int{8, 16, 32}\<close>, whose fourth
  element is the zero value 0 of \<open>int\<close>.
\<close>

fun countBits_loop :: "TInt \<Rightarrow> int \<Rightarrow> nat list \<Rightarrow> nat" where
  "countBits_loop ty v [] = 64"
| "countBits_loop ty v (bits # rest) =
     (if shl ty v bits = 0 then bits else countBits_loop ty v rest)"

definition countBits :: "TInt \<Rightarrow> nat" where
  "countBits ty = countBits_loop ty (conv ty 1) [8, 16, 32, 0]"

definition ones :: "TInt \<Rightarrow> int" where
  "ones ty = conv ty (NOT 0)"

definition intMin :: "TInt \<Rightarrow> int" where
  "intMin ty =
     (if ones ty < 0
      then conv ty (NOT (conv ty (ones ty XOR shl ty 1 (countBits ty - 1))))
      else 0)"

definition intMax :: "TInt \<Rightarrow> int" where
  "intMax ty =
     (if ones ty < 0
      then conv ty (ones ty XOR shl ty 1 (countBits ty - 1))
      else ones ty)"

definition MaxInt64 :: int where
  "MaxInt64 = 2 ^ 63 - 1"

text \<open>
  \<open>willOverflow\<close>: \<open>tMax\<close> and \<open>tMin\<close> are the bounds converted to \<open>int64\<close>, their
  difference is computed in \<open>int64\<close> and converted to \<open>uint64\<close> for the comparison with
  \<open>step\<close>; the two other tests add and subtract \<open>T(step)\<close> in \<open>T\<close>.
\<close>

definition willOverflow :: "TInt \<Rightarrow> int \<Rightarrow> int \<Rightarrow> bool \<Rightarrow> bool" where
  "willOverflow ty v step inc =
     (let tMax = conv T_int64 (intMax ty);
          tMin = conv T_int64 (intMin ty)
      in if tMax \<noteq> MaxInt64 \<and> step \<ge> conv T_uint64 (conv T_int64 (conv T_int64 (tMax - tMin) + 1))
         then True
         else if inc \<and> conv ty (v + conv ty step) < v then True
         else if \<not> inc \<and> conv ty (v - conv ty step) > v then True
         else False)"

section \<open>Sequences\<close>

text \<open>
  A sequence (\<open>iter.Seq[T]\<close>, \<open>Iterator[T]\<close>) is represented by the list of the values
  one drive of it yields, in order, to a consumer that never asks it to stop; every drive
  of the same sequence yields the same list. The cursor that \<open>iter.Pull\<close> returns is the
  list of the values not pulled yet: \<open>next()\<close> on \<open>v # rest\<close> returns \<open>(v, true)\<close> and
  leaves \<open>rest\<close>, on \<open>[]\<close> it returns \<open>ok = false\<close>.
\<close>

text \<open>
  Modelled from the spec: \<open>Empty[T]()\<close> is called by RangeStep, RangeTime, Take and
  TakeLast and is defined in neither sequence.go nor filtering.go. The spec says of each
  of these calls that it "yields nothing" (4.3: "A non-positive step produces an empty
  sequence"); an earlier revision of RangeStep returns \<open>func(yield func(T) bool) {}\<close>
  at that place.
\<close>

definition Empty :: "'a list" where
  "Empty = []"

section \<open>Range and RangeStep (sequence.go)\<close>

text \<open>
  The loop of RangeStep, with \<open>start\<close>, \<open>stop\<close>, \<open>step\<close> (a \<open>uint64\<close>) and \<open>inc\<close>
  fixed and \<open>cur\<close> (the source's \<open>curr\<close>) the loop variable. The value is yielded
  before anything is tested.
\<close>

function RangeStep_loop :: "TInt \<Rightarrow> int \<Rightarrow> int \<Rightarrow> int \<Rightarrow> bool \<Rightarrow> int \<Rightarrow> int list" where
  "RangeStep_loop ty start stop step inc cur =
     cur #
     (if inc
      then (let next = conv ty (cur + conv ty step)
            in if next \<ge> stop \<or> next < start \<or> next \<le> cur then []
               else RangeStep_loop ty start stop step inc next)
      else (let next = conv ty (cur - conv ty step)
            in if next \<le> stop \<or> next > start \<or> next \<ge> cur then []
               else RangeStep_loop ty start stop step inc next))"
  by pat_completeness auto
termination
  by (relation "measure (\<lambda>(ty, start, stop, step, inc, cur).
        if inc then nat (stop - cur) else nat (cur - stop))") auto

text \<open>
  \<open>stepSize\<close> has an integer type \<open>S\<close> of its own and is given by the integer it
  denotes; \<open>uint64(stepSize)\<close> is its conversion.
\<close>

definition RangeStep :: "TInt \<Rightarrow> int \<Rightarrow> int \<Rightarrow> int \<Rightarrow> int list" where
  "RangeStep ty start stop stepSize =
     (if stepSize \<le> 0 then Empty
      else let step = conv T_uint64 stepSize;
               inc = (if start > stop then False else True)
           in if willOverflow ty start step inc then [start]
              else RangeStep_loop ty start stop step inc start)"

definition Range_seq :: "TInt \<Rightarrow> int \<Rightarrow> int \<Rightarrow> int list" where
  "Range_seq ty start stop = RangeStep ty start stop 1"

section \<open>RangeTime (sequence.go)\<close>











section \<open>Concat and Reverse (sequence.go)\<close>

text \<open>
  A run that indexes a slice out of its bounds panics; such a run has the value
  \<open>Inl IndexOutOfRange\<close>, a run that ends has the value \<open>Inr\<close> of what it yielded.
\<close>

datatype panic = IndexOutOfRange | MakeSliceLenOutOfRange

definition index :: "'a list \<Rightarrow> int \<Rightarrow> panic + 'a" where
  "index buffer i =
     (if 0 \<le> i \<and> i < int (length buffer) then Inr (buffer ! nat i) else Inl IndexOutOfRange)"

definition assign :: "'a list \<Rightarrow> int \<Rightarrow> 'a \<Rightarrow> panic + 'a list" where
  "assign buffer i v =
     (if 0 \<le> i \<and> i < int (length buffer) then Inr (buffer[nat i := v]) else Inl IndexOutOfRange)"

text \<open>\<open>make([]T, n)\<close>: \<open>n\<close> elements, each the zero value of \<open>T\<close>.\<close>

definition make_slice :: "'a \<Rightarrow> int \<Rightarrow> panic + 'a list" where
  "make_slice zero n = (if n < 0 then Inl MakeSliceLenOutOfRange else Inr (replicate (nat n) zero))"

text \<open>\<open>yield(v)\<close> followed by the rest of the run.\<close>

definition emit :: "'a \<Rightarrow> panic + 'a list \<Rightarrow> panic + 'a list" where
  "emit v run = (case run of Inl e \<Rightarrow> Inl e | Inr out \<Rightarrow> Inr (v # out))"


text \<open>Concat: the sequences one after the other, each yielded element by element.\<close>

fun Concat :: "'a list list \<Rightarrow> 'a list" where
  "Concat [] = []"
| "Concat (seq # seqs) = seq @ Concat seqs"




section \<open>Take, TakeLast, Skip, SkipLast (filtering.go)\<close>

text \<open>
  The count \<open>n\<close>, the counter \<open>count\<close> and the indices are of Go's type \<open>int\<close>. They
  never exceed the number of values pulled plus \<open>n\<close>, and are written as unbounded
  integers.
\<close>

fun Take_loop :: "int \<Rightarrow> int \<Rightarrow> 'a list \<Rightarrow> 'a list" where
  "Take_loop n count [] = []"
| "Take_loop n count (v # rest) =
     v # (if count + 1 \<ge> n then [] else Take_loop n (count + 1) rest)"

definition Take :: "'a list \<Rightarrow> int \<Rightarrow> 'a list" where
  "Take iterator n = (if n \<le> 0 then Empty else Take_loop n 0 iterator)"

fun Skip_loop :: "int \<Rightarrow> int \<Rightarrow> 'a list \<Rightarrow> 'a list" where
  "Skip_loop n count [] = []"
| "Skip_loop n count (v # rest) =
     (if count + 1 \<le> n then Skip_loop n (count + 1) rest
      else v # Skip_loop n (count + 1) rest)"

definition Skip :: "'a list \<Rightarrow> int \<Rightarrow> 'a list" where
  "Skip iterator n = (if n \<le> 0 then iterator else Skip_loop n 0 iterator)"

text \<open>
  TakeLast: the first loop stores the values in the ring buffer and returns the indices
  and the buffer it ends with; the second yields from \<open>idxHead\<close> to \<open>idxTail\<close>. Go's
  \<open>%\<close> truncates towards zero, as \<open>smod\<close> does.
\<close>

fun TakeLast_fill :: "int \<Rightarrow> int \<Rightarrow> int \<Rightarrow> 'a list \<Rightarrow> 'a list \<Rightarrow> panic + (int \<times> int \<times> 'a list)" where
  "TakeLast_fill n idxHead idxTail buffer [] = Inr (idxHead, idxTail, buffer)"
| "TakeLast_fill n idxHead idxTail buffer (v # rest) =
     (if idxHead = - 1
      then (case assign buffer 0 v of
              Inl e \<Rightarrow> Inl e
            | Inr buffer' \<Rightarrow> TakeLast_fill n 0 0 buffer' rest)
      else if (idxHead + n - 1) smod n = idxTail
      then (let idxTail' = idxHead;
                idxHead' = (idxHead + 1) smod n
            in case assign buffer idxTail' v of
                 Inl e \<Rightarrow> Inl e
               | Inr buffer' \<Rightarrow> TakeLast_fill n idxHead' idxTail' buffer' rest)
      else (let idxTail' = (idxTail + 1) smod n
            in case assign buffer idxTail' v of
                 Inl e \<Rightarrow> Inl e
               | Inr buffer' \<Rightarrow> TakeLast_fill n idxHead idxTail' buffer' rest))"

function TakeLast_emit :: "int \<Rightarrow> int \<Rightarrow> int \<Rightarrow> 'a list \<Rightarrow> int \<Rightarrow> panic + 'a list" where
  "TakeLast_emit n idxHead idxTail buffer i =
     (if i < n
      then (let idx = (idxHead + i) smod n
            in case index buffer idx of
                 Inl e \<Rightarrow> Inl e
               | Inr v \<Rightarrow>
                   if idx = idxTail then Inr [v]
                   else emit v (TakeLast_emit n idxHead idxTail buffer (i + 1)))
      else Inr [])"
  by pat_completeness auto
termination
  by (relation "measure (\<lambda>(n, idxHead, idxTail, buffer, i). nat (n - i))") auto

definition TakeLast :: "'a \<Rightarrow> 'a list \<Rightarrow> int \<Rightarrow> panic + 'a list" where
  "TakeLast zero iterator n =
     (if n \<le> 0 then Inr Empty
      else case make_slice zero n of
             Inl e \<Rightarrow> Inl e
           | Inr buffer \<Rightarrow>
               (case TakeLast_fill n (- 1) (- 1) buffer iterator of
                  Inl e \<Rightarrow> Inl e
                | Inr (idxHead, idxTail, buffer') \<Rightarrow>
                    if idxHead < 0 then Inr []
                    else TakeLast_emit n idxHead idxTail buffer' 0))"

text \<open>SkipLast: one loop; once the ring is full each new value pushes the oldest out.\<close>

fun SkipLast_loop :: "int \<Rightarrow> int \<Rightarrow> int \<Rightarrow> 'a list \<Rightarrow> 'a list \<Rightarrow> panic + 'a list" where
  "SkipLast_loop n idxHead idxTail ringBuff [] = Inr []"
| "SkipLast_loop n idxHead idxTail ringBuff (v # rest) =
     (if idxHead = - 1
      then (case assign ringBuff 0 v of
              Inl e \<Rightarrow> Inl e
            | Inr ringBuff' \<Rightarrow> SkipLast_loop n 0 0 ringBuff' rest)
      else if (idxHead + n - 1) smod n = idxTail
      then (case index ringBuff idxHead of
              Inl e \<Rightarrow> Inl e
            | Inr yieldVal \<Rightarrow>
                (let idxTail' = idxHead;
                     idxHead' = (idxHead + 1) smod n
                 in case assign ringBuff idxTail' v of
                      Inl e \<Rightarrow> Inl e
                    | Inr ringBuff' \<Rightarrow>
                        emit yieldVal (SkipLast_loop n idxHead' idxTail' ringBuff' rest)))
      else (let idxTail' = (idxTail + 1) smod n
            in case assign ringBuff idxTail' v of
                 Inl e \<Rightarrow> Inl e
               | Inr ringBuff' \<Rightarrow> SkipLast_loop n idxHead idxTail' ringBuff' rest))"

definition SkipLast :: "'a \<Rightarrow> 'a list \<Rightarrow> int \<Rightarrow> panic + 'a list" where
  "SkipLast zero iterator n =
     (if n \<le> 0 then Inr iterator
      else case make_slice zero n of
             Inl e \<Rightarrow> Inl e
           | Inr ringBuff \<Rightarrow> SkipLast_loop n (- 1) (- 1) ringBuff iterator)"

section \<open>Distinct (filtering.go)\<close>

text \<open>
  \<open>yielded\<close> is a \<open>map[any]bool\<close>; reading a key that is not in the map gives \<open>false\<close>.
\<close>

definition lookup :: "('a \<rightharpoonup> bool) \<Rightarrow> 'a \<Rightarrow> bool" where
  "lookup m k = (case m k of None \<Rightarrow> False | Some b \<Rightarrow> b)"

fun Distinct_loop :: "('a \<rightharpoonup> bool) \<Rightarrow> 'a list \<Rightarrow> 'a list" where
  "Distinct_loop yielded [] = []"
| "Distinct_loop yielded (v # rest) =
     (if lookup yielded v then Distinct_loop yielded rest
      else v # Distinct_loop (yielded(v \<mapsto> True)) rest)"

definition Distinct :: "'a list \<Rightarrow> 'a list" where
  "Distinct iterator = Distinct_loop Map.empty iterator"


section \<open>Filter (filtering.go) and Cache\<close>

text \<open>
  The predicate of a filter may have side effects, as the counting predicate of
  TestIterator2_Cache has: it takes the state of its effects and returns the new one.
  \<open>Filter_next\<close> is the loop of Filter from the point where it stands to its next
  \<open>yield\<close>, or to its return when the source ends, which is what one \<open>next()\<close> on a
  cursor pulled from the filter runs; \<open>Filter_loop\<close> is the whole loop.
\<close>

fun Filter_next :: "('a \<Rightarrow> 's \<Rightarrow> bool \<times> 's) \<Rightarrow> 'a list \<Rightarrow> 's \<Rightarrow> 'a option \<times> 'a list \<times> 's" where
  "Filter_next predicate [] s = (None, [], s)"
| "Filter_next predicate (v # rest) s =
     (case predicate v s of
        (keep, s') \<Rightarrow>
          if \<not> keep then Filter_next predicate rest s'
          else (Some v, rest, s'))"

fun Filter_loop :: "('a \<Rightarrow> 's \<Rightarrow> bool \<times> 's) \<Rightarrow> 'a list \<Rightarrow> 's \<Rightarrow> 'a list \<times> 's" where
  "Filter_loop predicate [] s = ([], s)"
| "Filter_loop predicate (v # rest) s =
     (case predicate v s of
        (keep, s') \<Rightarrow>
          if \<not> keep then Filter_loop predicate rest s'
          else (case Filter_loop predicate rest s' of (out, s'') \<Rightarrow> (v # out, s'')))"

text \<open>The predicate of the test: it counts its calls (\<open>count++\<close>) and answers \<open>p v\<close>.\<close>

definition counting :: "('a \<Rightarrow> bool) \<Rightarrow> 'a \<Rightarrow> nat \<Rightarrow> bool \<times> nat" where
  "counting p v count = (p v, count + 1)"

text \<open>
  Modelled from the spec: the function \<open>Cache\<close> is not among the sources at hand, only the
  method \<open>Iterator.Cache\<close> that calls it and the test TestIterator2_Cache. Section 4.8 of
  the spec: the first full or partial drive records the produced values and does not
  re-invoke the upstream pipeline for positions already recorded; later drives replay
  from the cache and only continue driving upstream for positions beyond what was
  previously cached. The wrapper over a filtered source holds the values recorded so
  far, what the source has not handed to the pipeline yet, and the state of the
  pipeline's side effects.
\<close>

record ('a, 's) cache =
  recorded :: "'a list"
  upstream :: "'a list"
  effects :: 's

text \<open>
  Modelled from the spec: wrapping a pipeline records nothing and invokes nothing.
\<close>

definition Cache :: "'a list \<Rightarrow> 's \<Rightarrow> ('a, 's) cache" where
  "Cache source s = \<lparr>recorded = [], upstream = source, effects = s\<rparr>"

text \<open>
  Modelled from the spec: driving upstream for the positions beyond the recorded ones.
  \<open>want\<close> is the number of further values the consumer takes before it answers
  \<open>false\<close> (\<open>None\<close>: it never does). Every value pulled is recorded, then yielded.
\<close>

function Cache_extend ::
  "('a \<Rightarrow> 's \<Rightarrow> bool \<times> 's) \<Rightarrow> nat option \<Rightarrow> ('a, 's) cache \<Rightarrow> 'a list \<times> ('a, 's) cache" where
  "Cache_extend predicate want c =
     (if want = Some 0 then ([], c)
      else case Filter_next predicate (upstream c) (effects c) of
             (None, rest, s) \<Rightarrow> ([], c\<lparr>upstream := rest, effects := s\<rparr>)
           | (Some v, rest, s) \<Rightarrow>
               (case Cache_extend predicate (map_option (\<lambda>k. k - 1) want)
                       (c\<lparr>recorded := recorded c @ [v], upstream := rest, effects := s\<rparr>) of
                  (out, c') \<Rightarrow> (v # out, c')))"
  by pat_completeness auto
termination
proof -
  have shorter: "length rest < length xs"
    if "Filter_next predicate xs s0 = (Some v, rest, s)"
    for predicate :: "'a \<Rightarrow> 's \<Rightarrow> bool \<times> 's" and xs s0 v rest s
    using that
  proof (induction xs arbitrary: s0)
    case Nil
    then show ?case by simp
  next
    case (Cons y ys)
    then show ?case
      by (cases "predicate y s0") (fastforce split: if_splits)
  qed
  show ?thesis
    by (relation "measure (\<lambda>(predicate, want, c). length (upstream c))")
       (auto dest: shorter [OF sym])
qed

text \<open>
  Modelled from the spec: one drive of the cached sequence by a consumer that takes
  \<open>want\<close> values. The recorded positions are replayed; upstream is driven only when the
  consumer wants more than what is recorded.
\<close>

definition Cache_drive ::
  "('a \<Rightarrow> 's \<Rightarrow> bool \<times> 's) \<Rightarrow> nat option \<Rightarrow> ('a, 's) cache \<Rightarrow> 'a list \<times> ('a, 's) cache" where
  "Cache_drive predicate want c =
     (case want of
        Some k \<Rightarrow>
          if k \<le> length (recorded c) then (take k (recorded c), c)
          else (case Cache_extend predicate (Some (k - length (recorded c))) c of
                  (out, c') \<Rightarrow> (recorded c @ out, c'))
      | None \<Rightarrow>
          (case Cache_extend predicate None c of
             (out, c') \<Rightarrow> (recorded c @ out, c')))"

text \<open>
  Modelled from the spec: the drives of one cached sequence, one after the other ("across
  any number of partial or full replays").
\<close>

fun Cache_drives ::
  "('a \<Rightarrow> 's \<Rightarrow> bool \<times> 's) \<Rightarrow> nat option list \<Rightarrow> ('a, 's) cache \<Rightarrow> 'a list list \<times> ('a, 's) cache" where
  "Cache_drives predicate [] c = ([], c)"
| "Cache_drives predicate (want # wants) c =
     (case Cache_drive predicate want c of
        (out, c') \<Rightarrow>
          (case Cache_drives predicate wants c' of
             (outs, c'') \<Rightarrow> (out # outs, c'')))"

section \<open>The conversion to a type\<close>

declare RangeStep_loop.simps [simp del]

lemma width_pos: "0 < width ty"
  by (cases ty) simp_all

lemma width_le_64: "width ty \<le> 64"
  by (cases ty) simp_all

lemma two_half: "(2::int) ^ width ty = 2 * 2 ^ (width ty - 1)"
  using width_pos [of ty] by (cases "width ty") simp_all

lemma range_size: "max_of ty - min_of ty + 1 = 2 ^ width ty"
  using two_half [of ty] by (simp add: max_of_def min_of_def)

lemma conv_in_range: "in_range ty (conv ty x)"
proof (cases "is_signed ty")
  case True
  have "0 \<le> (x + 2 ^ (width ty - 1)) mod 2 ^ width ty"
    and "(x + 2 ^ (width ty - 1)) mod 2 ^ width ty < (2::int) ^ width ty"
    by simp_all
  with True show ?thesis
    using two_half [of ty] by (simp add: in_range_def conv_def min_of_def max_of_def)
next
  case False
  have "0 \<le> x mod 2 ^ width ty" and "x mod 2 ^ width ty < (2::int) ^ width ty"
    by simp_all
  with False show ?thesis
    by (simp add: in_range_def conv_def min_of_def max_of_def)
qed

lemma conv_id: "in_range ty x \<Longrightarrow> conv ty x = x"
  using two_half [of ty]
  by (auto simp: in_range_def conv_def min_of_def max_of_def split: if_splits)

lemma conv_cong_mod:
  "x mod 2 ^ width ty = y mod 2 ^ width ty \<Longrightarrow> conv ty x = conv ty y"
proof -
  assume h: "x mod 2 ^ width ty = y mod 2 ^ width ty"
  have "(x + 2 ^ (width ty - 1)) mod 2 ^ width ty = (y + 2 ^ (width ty - 1)) mod 2 ^ width ty"
    using h by (metis mod_add_left_eq)
  with h show ?thesis by (simp add: conv_def)
qed

lemma conv_mod: "conv ty x mod 2 ^ width ty = x mod 2 ^ width ty"
proof (cases "is_signed ty")
  case True
  have "((x + 2 ^ (width ty - 1)) mod 2 ^ width ty - 2 ^ (width ty - 1)) mod 2 ^ width ty
        = (x + 2 ^ (width ty - 1) - 2 ^ (width ty - 1)) mod 2 ^ width ty"
    by (rule mod_diff_left_eq)
  with True show ?thesis by (simp add: conv_def)
next
  case False
  then show ?thesis by (simp add: conv_def)
qed

lemma conv_add_conv: "conv ty (a + conv ty b) = conv ty (a + b)"
  by (rule conv_cong_mod) (metis conv_mod mod_add_right_eq)

lemma conv_diff_conv: "conv ty (a - conv ty b) = conv ty (a - b)"
  by (rule conv_cong_mod) (metis conv_mod mod_diff_right_eq)

lemma conv_sub_size: "conv ty (x - 2 ^ width ty) = conv ty x"
  by (rule conv_cong_mod) simp

lemma conv_add_size: "conv ty (x + 2 ^ width ty) = conv ty x"
  by (rule conv_cong_mod) simp

lemma conv_up:
  assumes "in_range ty v" "0 < s" "s < 2 ^ width ty"
  shows "conv ty (v + s) = (if v + s \<le> max_of ty then v + s else v + s - 2 ^ width ty)"
proof (cases "v + s \<le> max_of ty")
  case True
  with assms have "in_range ty (v + s)" by (simp add: in_range_def)
  with True show ?thesis by (simp add: conv_id)
next
  case False
  with assms have "in_range ty (v + s - 2 ^ width ty)"
    using range_size [of ty] by (simp add: in_range_def)
  then have "conv ty (v + s - 2 ^ width ty) = v + s - 2 ^ width ty" by (rule conv_id)
  with False show ?thesis by (simp add: conv_sub_size)
qed

lemma conv_down:
  assumes "in_range ty v" "0 < s" "s < 2 ^ width ty"
  shows "conv ty (v - s) = (if min_of ty \<le> v - s then v - s else v - s + 2 ^ width ty)"
proof (cases "min_of ty \<le> v - s")
  case True
  with assms have "in_range ty (v - s)" by (simp add: in_range_def)
  with True show ?thesis by (simp add: conv_id)
next
  case False
  with assms have "in_range ty (v - s + 2 ^ width ty)"
    using range_size [of ty] by (simp add: in_range_def)
  then have "conv ty (v - s + 2 ^ width ty) = v - s + 2 ^ width ty" by (rule conv_id)
  with False show ?thesis by (simp add: conv_add_size)
qed

lemma countBits_width: "countBits ty = width ty"
  by (cases ty) (simp_all add: countBits_def shl_def conv_def)

lemma intMax_max_of: "intMax ty = max_of ty"
  by (cases ty) (simp_all add: intMax_def ones_def countBits_width shl_def conv_def max_of_def)

lemma intMin_min_of: "intMin ty = min_of ty"
  by (cases ty) (simp_all add: intMin_def ones_def countBits_width shl_def conv_def min_of_def)


lemma size_test_small:
  "width ty < 64 \<Longrightarrow>
     conv T_int64 (intMax ty) \<noteq> MaxInt64 \<and>
     conv T_uint64 (conv T_int64 (conv T_int64
        (conv T_int64 (intMax ty) - conv T_int64 (intMin ty)) + 1)) = 2 ^ width ty"
  by (cases ty)
     (simp_all add: intMax_max_of intMin_min_of max_of_def min_of_def conv_def MaxInt64_def)

lemma size_test_signed64:
  "is_signed ty \<Longrightarrow> width ty = 64 \<Longrightarrow> conv T_int64 (intMax ty) = MaxInt64"
  by (cases ty) (simp_all add: intMax_max_of max_of_def conv_def MaxInt64_def)

lemma size_test_unsigned64:
  "\<not> is_signed ty \<Longrightarrow> width ty = 64 \<Longrightarrow>
     conv T_int64 (intMax ty) \<noteq> MaxInt64 \<and>
     conv T_uint64 (conv T_int64 (conv T_int64
        (conv T_int64 (intMax ty) - conv T_int64 (intMin ty)) + 1)) = 0"
  by (cases ty)
     (simp_all add: intMax_max_of intMin_min_of max_of_def min_of_def conv_def MaxInt64_def)

lemma willOverflow_unsigned64:
  assumes "\<not> is_signed ty" "width ty = 64" "0 \<le> step"
  shows "willOverflow ty v step inc"
  using size_test_unsigned64 [OF assms(1,2)] assms(3)
  by (simp add: willOverflow_def Let_def)

lemma conv_uint64_nonneg: "0 \<le> conv T_uint64 x"
  by (simp add: conv_def)

lemma conv_uint64_id: "0 \<le> x \<Longrightarrow> x < 2 ^ 64 \<Longrightarrow> conv T_uint64 x = x"
  by (simp add: conv_def)

lemma willOverflow_inc:
  assumes ty: "is_signed ty \<or> width ty < 64"
    and v: "in_range ty v" and s: "0 < step" "step < 2 ^ 64"
  shows "willOverflow ty v step True \<longleftrightarrow> max_of ty < v + step"
proof (cases "width ty < 64 \<and> 2 ^ width ty \<le> step")
  case True
  then have "willOverflow ty v step True"
    using size_test_small [of ty] by (simp add: willOverflow_def Let_def)
  moreover have "max_of ty < v + step"
    using True v range_size [of ty] by (simp add: in_range_def)
  ultimately show ?thesis by simp
next
  case False
  have small: "step < 2 ^ width ty"
  proof (cases "width ty < 64")
    case True with False show ?thesis by simp
  next
    case False
    with width_le_64 [of ty] have "width ty = 64" by simp
    with s show ?thesis by simp
  qed
  have first: "\<not> (conv T_int64 (intMax ty) \<noteq> MaxInt64 \<and>
     conv T_uint64 (conv T_int64 (conv T_int64
        (conv T_int64 (intMax ty) - conv T_int64 (intMin ty)) + 1)) \<le> step)"
  proof (cases "width ty < 64")
    case True
    with False size_test_small [of ty] show ?thesis by simp
  next
    case False
    with width_le_64 [of ty] have "width ty = 64" by simp
    with ty size_test_signed64 [of ty] show ?thesis by simp
  qed
  have "conv ty (v + conv ty step) = conv ty (v + step)" by (rule conv_add_conv)
  also have "\<dots> = (if v + step \<le> max_of ty then v + step else v + step - 2 ^ width ty)"
    using v s(1) small by (rule conv_up)
  finally have "conv ty (v + conv ty step) < v \<longleftrightarrow> max_of ty < v + step"
    using s(1) small by auto
  with first show ?thesis by (simp add: willOverflow_def Let_def)
qed

lemma willOverflow_dec:
  assumes ty: "is_signed ty \<or> width ty < 64"
    and v: "in_range ty v" and s: "0 < step" "step < 2 ^ 64"
  shows "willOverflow ty v step False \<longleftrightarrow> v - step < min_of ty"
proof (cases "width ty < 64 \<and> 2 ^ width ty \<le> step")
  case True
  then have "willOverflow ty v step False"
    using size_test_small [of ty] by (simp add: willOverflow_def Let_def)
  moreover have "v - step < min_of ty"
    using True v range_size [of ty] by (simp add: in_range_def)
  ultimately show ?thesis by simp
next
  case False
  have small: "step < 2 ^ width ty"
  proof (cases "width ty < 64")
    case True with False show ?thesis by simp
  next
    case False
    with width_le_64 [of ty] have "width ty = 64" by simp
    with s show ?thesis by simp
  qed
  have first: "\<not> (conv T_int64 (intMax ty) \<noteq> MaxInt64 \<and>
     conv T_uint64 (conv T_int64 (conv T_int64
        (conv T_int64 (intMax ty) - conv T_int64 (intMin ty)) + 1)) \<le> step)"
  proof (cases "width ty < 64")
    case True
    with False size_test_small [of ty] show ?thesis by simp
  next
    case False
    with width_le_64 [of ty] have "width ty = 64" by simp
    with ty size_test_signed64 [of ty] show ?thesis by simp
  qed
  have "conv ty (v - conv ty step) = conv ty (v - step)" by (rule conv_diff_conv)
  also have "\<dots> = (if min_of ty \<le> v - step then v - step else v - step + 2 ^ width ty)"
    using v s(1) small by (rule conv_down)
  finally have "conv ty (v - conv ty step) > v \<longleftrightarrow> v - step < min_of ty"
    using s(1) small by auto
  with first show ?thesis by (simp add: willOverflow_def Let_def)
qed


lemma ceil_one: "0 < d \<Longrightarrow> d \<le> s \<Longrightarrow> (d + s - 1) div s = (1::int)"
proof -
  assume h: "0 < d" "d \<le> s"
  have "(d + s - 1) div s = ((d - 1) + 1 * s) div s" by (simp add: algebra_simps)
  also have "\<dots> = (d - 1) div s + 1" using h by (subst div_mult_self1) auto
  also have "(d - 1) div s = 0" using h by simp
  finally show ?thesis by simp
qed

lemma ceil_step: "0 < s \<Longrightarrow> (d + s - 1) div s = (d - s + s - 1) div s + (1::int)"
proof -
  assume h: "0 < s"
  have "(d + s - 1) div s = ((d - 1) + 1 * s) div s" by (simp add: algebra_simps)
  also have "\<dots> = (d - 1) div s + 1" using h by (subst div_mult_self1) auto
  finally show ?thesis by simp
qed

lemma map_progression_Suc:
  "map (\<lambda>k. c + int k * s) [0..<Suc m] = c # map (\<lambda>k. (c + s) + int k * s) [0..<m]"
proof -
  have "map (\<lambda>k. c + int k * s) [0..<Suc m] = c # map (\<lambda>k. c + int k * s) (map Suc [0..<m])"
    by (simp only: upt_conv_Cons [of 0 "Suc m"] map_Suc_upt) simp
  also have "map (\<lambda>k. c + int k * s) (map Suc [0..<m]) = map (\<lambda>k. (c + s) + int k * s) [0..<m]"
    by (simp add: algebra_simps)
  finally show ?thesis .
qed

lemma map_regression_Suc:
  "map (\<lambda>k. c - int k * s) [0..<Suc m] = c # map (\<lambda>k. (c - s) - int k * s) [0..<m]"
proof -
  have "map (\<lambda>k. c - int k * s) [0..<Suc m] = c # map (\<lambda>k. c - int k * s) (map Suc [0..<m])"
    by (simp only: upt_conv_Cons [of 0 "Suc m"] map_Suc_upt) simp
  also have "map (\<lambda>k. c - int k * s) (map Suc [0..<m]) = map (\<lambda>k. (c - s) - int k * s) [0..<m]"
    by (simp add: algebra_simps)
  finally show ?thesis .
qed

lemma loop_asc:
  assumes "in_range ty start" "in_range ty stop" "0 < step" "step < 2 ^ width ty"
  shows "in_range ty cur \<Longrightarrow> start \<le> cur \<Longrightarrow> cur < stop \<Longrightarrow>
         RangeStep_loop ty start stop step True cur =
         map (\<lambda>k. cur + int k * step) [0..<nat ((stop - cur + step - 1) div step)]"
proof (induction "nat (stop - cur)" arbitrary: cur rule: less_induct)
  case less
  have nx: "conv ty (cur + conv ty step) =
        (if cur + step \<le> max_of ty then cur + step else cur + step - 2 ^ width ty)"
    using conv_up [OF less.prems(1) assms(3,4)] by (simp add: conv_add_conv)
  show ?case
  proof (cases "cur + step < stop")
    case True
    with assms(2) have le: "cur + step \<le> max_of ty" by (simp add: in_range_def)
    with nx have next_eq: "conv ty (cur + conv ty step) = cur + step" by simp
    have rng: "in_range ty (cur + step)"
      using le less.prems(1) assms(3) by (simp add: in_range_def)
    have ih: "RangeStep_loop ty start stop step True (cur + step) =
        map (\<lambda>k. (cur + step) + int k * step) [0..<nat ((stop - (cur + step) + step - 1) div step)]"
      using less.prems assms(3) True rng by (intro less.hyps) auto
    have pos: "0 \<le> (stop - (cur + step) + step - 1) div step"
      using True assms(3) by (simp add: pos_imp_zdiv_nonneg_iff)
    have cnt: "nat ((stop - cur + step - 1) div step) =
        Suc (nat ((stop - (cur + step) + step - 1) div step))"
      using ceil_step [OF assms(3), of "stop - cur"] pos by (simp add: algebra_simps nat_add_distrib)
    have "RangeStep_loop ty start stop step True cur =
        cur # RangeStep_loop ty start stop step True (cur + step)"
      using True less.prems assms(3)
      by (subst RangeStep_loop.simps) (simp add: next_eq Let_def)
    then show ?thesis
      by (simp only: ih cnt map_progression_Suc)
  next
    case False
    have stop': "RangeStep_loop ty start stop step True cur = [cur]"
    proof (cases "cur + step \<le> max_of ty")
      case True
      with nx False show ?thesis
        by (subst RangeStep_loop.simps) (simp add: Let_def)
    next
      case False
      with nx assms(4) show ?thesis
        by (subst RangeStep_loop.simps) (simp add: Let_def)
    qed
    have "(stop - cur + step - 1) div step = 1"
      using False less.prems(3) by (intro ceil_one) auto
    with stop' show ?thesis by (simp add: upt_rec)
  qed
qed

lemma loop_desc:
  assumes "in_range ty start" "in_range ty stop" "0 < step" "step < 2 ^ width ty"
  shows "in_range ty cur \<Longrightarrow> cur \<le> start \<Longrightarrow> stop < cur \<Longrightarrow>
         RangeStep_loop ty start stop step False cur =
         map (\<lambda>k. cur - int k * step) [0..<nat ((cur - stop + step - 1) div step)]"
proof (induction "nat (cur - stop)" arbitrary: cur rule: less_induct)
  case less
  have nx: "conv ty (cur - conv ty step) =
        (if min_of ty \<le> cur - step then cur - step else cur - step + 2 ^ width ty)"
    using conv_down [OF less.prems(1) assms(3,4)] by (simp add: conv_diff_conv)
  show ?case
  proof (cases "stop < cur - step")
    case True
    with assms(2) have le: "min_of ty \<le> cur - step" by (simp add: in_range_def)
    with nx have next_eq: "conv ty (cur - conv ty step) = cur - step" by simp
    have rng: "in_range ty (cur - step)"
      using le less.prems(1) assms(3) by (simp add: in_range_def)
    have ih: "RangeStep_loop ty start stop step False (cur - step) =
        map (\<lambda>k. (cur - step) - int k * step) [0..<nat (((cur - step) - stop + step - 1) div step)]"
      using less.prems assms(3) True rng by (intro less.hyps) auto
    have pos: "0 \<le> ((cur - step) - stop + step - 1) div step"
      using True assms(3) by (simp add: pos_imp_zdiv_nonneg_iff)
    have cnt: "nat ((cur - stop + step - 1) div step) =
        Suc (nat (((cur - step) - stop + step - 1) div step))"
      using ceil_step [OF assms(3), of "cur - stop"] pos by (simp add: algebra_simps nat_add_distrib)
    have "RangeStep_loop ty start stop step False cur =
        cur # RangeStep_loop ty start stop step False (cur - step)"
      using True less.prems assms(3)
      by (subst RangeStep_loop.simps) (simp add: next_eq Let_def)
    then show ?thesis
      by (simp only: ih cnt map_regression_Suc)
  next
    case False
    have stop': "RangeStep_loop ty start stop step False cur = [cur]"
    proof (cases "min_of ty \<le> cur - step")
      case True
      with nx False show ?thesis
        by (subst RangeStep_loop.simps) (simp add: Let_def)
    next
      case False
      with nx assms(4) show ?thesis
        by (subst RangeStep_loop.simps) (simp add: Let_def)
    qed
    have "(cur - stop + step - 1) div step = 1"
      using False less.prems(3) by (intro ceil_one) auto
    with stop' show ?thesis by (simp add: upt_rec)
  qed
qed

section \<open>RangeStep\<close>

lemma RangeStep_unfold:
  "0 < stepSize \<Longrightarrow>
   RangeStep ty start stop stepSize =
     (if willOverflow ty start (conv T_uint64 stepSize) (\<not> stop < start) then [start]
      else RangeStep_loop ty start stop (conv T_uint64 stepSize) (\<not> stop < start) start)"
  by (cases "stop < start") (simp_all add: RangeStep_def Let_def)

lemma loop_single:
  assumes "in_range ty start" "0 < step" "step < 2 ^ width ty"
  shows "RangeStep_loop ty start start step True start = [start]"
proof -
  have "conv ty (start + conv ty step) =
        (if start + step \<le> max_of ty then start + step else start + step - 2 ^ width ty)"
    using conv_up [OF assms] by (simp add: conv_add_conv)
  with assms(2,3) show ?thesis
    by (subst RangeStep_loop.simps) (simp add: Let_def)
qed

lemma step_small:
  assumes "is_signed ty \<or> width ty < 64" "in_range ty v" "0 < step" "step < 2 ^ 64"
    and "\<not> willOverflow ty v step inc"
  shows "step < 2 ^ width ty"
proof (cases inc)
  case True
  with assms have "v + step \<le> max_of ty" by (simp add: willOverflow_inc)
  with assms(2) range_size [of ty] show ?thesis by (simp add: in_range_def)
next
  case False
  with assms have "min_of ty \<le> v - step" by (simp add: willOverflow_dec)
  with assms(2) range_size [of ty] show ?thesis by (simp add: in_range_def)
qed

lemma RangeStep_closed_form:
  assumes ty: "is_signed ty \<or> width ty < 64"
    and rng: "in_range ty start" "in_range ty stop"
    and s: "0 < stepSize" "stepSize < 2 ^ 64"
  shows "RangeStep ty start stop stepSize =
     (if start < stop
      then map (\<lambda>k. start + int k * stepSize) [0..<nat ((stop - start + stepSize - 1) div stepSize)]
      else if stop < start
      then map (\<lambda>k. start - int k * stepSize) [0..<nat ((start - stop + stepSize - 1) div stepSize)]
      else [start])"
proof -
  have step: "conv T_uint64 stepSize = stepSize"
    using s by (simp add: conv_uint64_id)
  show ?thesis
  proof (cases "willOverflow ty start stepSize (\<not> stop < start)")
    case True
    then have one: "RangeStep ty start stop stepSize = [start]"
      using s(1) by (simp add: RangeStep_unfold step)
    show ?thesis
    proof (cases "stop < start")
      case True
      with \<open>willOverflow ty start stepSize (\<not> stop < start)\<close>
      have "start - stepSize < min_of ty"
        using willOverflow_dec [OF ty rng(1) s] by simp
      with rng(2) have "start - stop \<le> stepSize" by (simp add: in_range_def)
      with True have "(start - stop + stepSize - 1) div stepSize = 1"
        by (intro ceil_one) auto
      with True one show ?thesis by (simp add: upt_rec)
    next
      case False
      with \<open>willOverflow ty start stepSize (\<not> stop < start)\<close>
      have "max_of ty < start + stepSize"
        using willOverflow_inc [OF ty rng(1) s] by simp
      with rng(2) have le: "stop - start \<le> stepSize" by (simp add: in_range_def)
      show ?thesis
      proof (cases "start < stop")
        case True
        with le have "(stop - start + stepSize - 1) div stepSize = 1"
          by (intro ceil_one) auto
        with True one show ?thesis by (simp add: upt_rec)
      next
        case False
        with \<open>\<not> stop < start\<close> one show ?thesis by simp
      qed
    qed
  next
    case False
    have small: "stepSize < 2 ^ width ty"
      using ty rng(1) s False by (rule step_small)
    have loop: "RangeStep ty start stop stepSize =
        RangeStep_loop ty start stop stepSize (\<not> stop < start) start"
      using s(1) False by (simp add: RangeStep_unfold step)
    show ?thesis
    proof (cases "stop < start")
      case True
      then show ?thesis
        using loop loop_desc [OF rng s(1) small rng(1)] by simp
    next
      case False
      show ?thesis
      proof (cases "start < stop")
        case True
        then show ?thesis
          using loop loop_asc [OF rng s(1) small rng(1)] by simp
      next
        case False
        with \<open>\<not> stop < start\<close> have "stop = start" by simp
        then show ?thesis
          using loop loop_single [OF rng(1) s(1) small] by simp
      qed
    qed
  qed
qed

lemma RangeStep_unsigned64:
  assumes "\<not> is_signed ty" "width ty = 64" "0 < stepSize"
  shows "RangeStep ty start stop stepSize = [start]"
  using assms(3) willOverflow_unsigned64 [OF assms(1,2) conv_uint64_nonneg]
  by (simp add: RangeStep_unfold)

lemma RangeStep_first_step_overflow:
  assumes "in_range ty start" "in_range ty stop" "0 < stepSize" "stepSize < 2 ^ 64"
    and "(start \<le> stop \<and> max_of ty < start + stepSize) \<or>
         (stop < start \<and> start - stepSize < min_of ty)"
  shows "RangeStep ty start stop stepSize = [start]"
proof (cases "is_signed ty \<or> width ty < 64")
  case True
  have step: "conv T_uint64 stepSize = stepSize"
    using assms(3,4) by (simp add: conv_uint64_id)
  have "willOverflow ty start stepSize (\<not> stop < start)"
    using assms(5) willOverflow_inc [OF True assms(1,3,4)] willOverflow_dec [OF True assms(1,3,4)]
    by auto
  with assms(3) show ?thesis by (simp add: RangeStep_unfold step)
next
  case False
  with width_le_64 [of ty] have "\<not> is_signed ty" "width ty = 64" by auto
  then show ?thesis using assms(3) by (rule RangeStep_unsigned64)
qed

lemma eval_int8_overflow: "RangeStep T_int8 0 5 256 = [0]"
  by (simp add: RangeStep_def willOverflow_def conv_def intMax_def intMin_def ones_def
      countBits_def shl_def MaxInt64_def Let_def)

lemma eval_uint8_progression: "RangeStep T_uint8 100 251 50 = [100, 150, 200, 250]"
  by (simp add: RangeStep_def willOverflow_def conv_def intMax_def intMin_def ones_def
      countBits_def shl_def MaxInt64_def Let_def RangeStep_loop.simps)

text \<open>
  C1. The claim: whenever repeatedly adding (or subtracting) the step to \<open>start\<close> would
  overflow the range of the element type, RangeStep yields exactly \<open>start\<close>. On the code
  this holds when the first addition (subtraction) already leaves the range of the type,
  which is what \<open>willOverflow\<close> tests before anything is produced: then the sequence is
  the single value \<open>start\<close>, for every element type; and RangeStep(0, 5, 256) over
  \<open>int8\<close> yields exactly [0]. An overflow that only a later addition meets is left to
  the tests of the loop.
\<close>

theorem RangeStep_overflow_guard:
  assumes "in_range ty start" "in_range ty stop" "0 < stepSize" "stepSize < 2 ^ 64"
    and "(start \<le> stop \<and> max_of ty < start + stepSize) \<or>
         (stop < start \<and> start - stepSize < min_of ty)"
  shows "RangeStep ty start stop stepSize = [start] \<and> RangeStep T_int8 0 5 256 = [0]"
  using RangeStep_first_step_overflow [OF assms] eval_int8_overflow by simp

theorem RangeStep_overflow_guard_witness:
  "in_range T_int8 120 \<and> in_range T_int8 127 \<and> (0::int) < 10 \<and> (10::int) < 2 ^ 64 \<and>
   ((120::int) \<le> 127 \<and> max_of T_int8 < 120 + 10) \<and>
   RangeStep T_int8 120 127 10 = [120]"
proof -
  have h: "in_range T_int8 120" "in_range T_int8 127" "(0::int) < 10" "(10::int) < 2 ^ 64"
    "((120::int) \<le> 127 \<and> max_of T_int8 < 120 + 10) \<or>
     ((127::int) < 120 \<and> 120 - 10 < min_of T_int8)"
    by (simp_all add: in_range_def min_of_def max_of_def)
  from RangeStep_overflow_guard [OF h] h(1-4) show ?thesis
    by (simp add: max_of_def)
qed

text \<open>
  Against C1 as it is worded: adding 50 to 100 four times leaves the range of \<open>uint8\<close>,
  and RangeStep(100, 251, 50) over \<open>uint8\<close> yields four values, not \<open>start\<close> alone.
\<close>

theorem RangeStep_repeated_overflow_counterexample:
  "max_of T_uint8 < 100 + 4 * 50 \<and> RangeStep T_uint8 100 251 50 \<noteq> [100]"
  using eval_uint8_progression by (simp add: max_of_def)

text \<open>
  C2. The claim: for all \<open>start\<close>, \<open>stop\<close> and positive \<open>stepSize\<close> RangeStep yields the
  half-open progression from \<open>start\<close> towards \<open>stop\<close>, \<open>stop\<close> never among the values.
  The code at two inputs: over \<open>uint64\<close>, RangeStep(0, 5, 1) yields [0] where the claim
  has [0, 1, 2, 3, 4]; and RangeStep(5, 5, 1) yields [5], which is \<open>stop\<close>.
\<close>

theorem RangeStep_half_open_failing_inputs:
  "RangeStep T_uint64 0 5 1 = [0] \<and> RangeStep T_int 5 5 1 = [5]"
proof -
  have "RangeStep T_uint64 0 5 1 = [0]"
    by (rule RangeStep_unsigned64) simp_all
  moreover have "RangeStep T_int 5 5 1 = [5]"
    using RangeStep_closed_form [of T_int 5 5 1]
    by (simp add: in_range_def min_of_def max_of_def)
  ultimately show ?thesis by simp
qed

text \<open>
  C10. Over \<open>uint64\<close>, RangeStep with a positive \<open>stepSize\<close> yields exactly \<open>start\<close>,
  whatever \<open>start\<close> and \<open>stop\<close> are: the greatest value of the type, converted to
  \<open>int64\<close>, is -1, the size of the range computed from it is 0, and \<open>willOverflow\<close>
  answers \<open>true\<close> for every step.
\<close>

theorem RangeStep_uint64_single:
  assumes "0 < stepSize"
  shows "RangeStep T_uint64 start stop stepSize = [start] \<and>
         conv T_int64 (intMax T_uint64) = - 1 \<and>
         willOverflow T_uint64 start (conv T_uint64 stepSize) inc"
proof -
  have "RangeStep T_uint64 start stop stepSize = [start]"
    using assms by (intro RangeStep_unsigned64) simp_all
  moreover have "conv T_int64 (intMax T_uint64) = - 1"
    by (simp add: intMax_max_of max_of_def conv_def)
  moreover have "willOverflow T_uint64 start (conv T_uint64 stepSize) inc"
    by (intro willOverflow_unsigned64 conv_uint64_nonneg) simp_all
  ultimately show ?thesis by simp
qed

theorem RangeStep_uint64_single_witness:
  "(0::int) < 1 \<and> RangeStep T_uint64 0 5 1 = [0]"
  using RangeStep_uint64_single [of 1 0 5 True] by simp

section \<open>Take, Skip and Concat\<close>

lemma Take_loop_take:
  "count < n \<Longrightarrow> Take_loop n count xs = take (nat (n - count)) xs"
proof (induction xs arbitrary: count)
  case Nil
  then show ?case by simp
next
  case (Cons v rest)
  show ?case
  proof (cases "count + 1 \<ge> n")
    case True
    with Cons.prems have "n - count = 1" by simp
    with True show ?thesis by simp
  next
    case False
    then have "nat (n - count) = Suc (nat (n - (count + 1)))" by simp
    with False Cons.IH [of "count + 1"] show ?thesis by simp
  qed
qed

lemma Skip_loop_drop:
  "Skip_loop n count xs = drop (nat (n - count)) xs"
proof (induction xs arbitrary: count)
  case Nil
  then show ?case by simp
next
  case (Cons v rest)
  show ?case
  proof (cases "count + 1 \<le> n")
    case True
    then have "nat (n - count) = Suc (nat (n - (count + 1)))" by simp
    with True Cons.IH [of "count + 1"] show ?thesis by simp
  next
    case False
    with Cons.IH [of "count + 1"] show ?thesis by simp
  qed
qed

lemma Take_take: "0 < n \<Longrightarrow> Take S n = take (nat n) S"
  by (simp add: Take_def Take_loop_take)

lemma Skip_drop: "Skip S n = drop (nat n) S"
  by (simp add: Skip_def Skip_loop_drop)

text \<open>
  C3. For every sequence \<open>S\<close> and every positive \<open>n\<close>, Concat(Take(S, n), Skip(S, n))
  yields the elements of \<open>S\<close>, in the order of \<open>S\<close>.
\<close>

theorem Concat_Take_Skip:
  assumes "0 < n"
  shows "Concat [Take S n, Skip S n] = S"
  using assms by (simp add: Take_take Skip_drop)

theorem Concat_Take_Skip_witness:
  "(0::int) < 2 \<and> Concat [Take [10, 20, 30, 40, 50 :: int] 2, Skip [10, 20, 30, 40, 50] 2]
     = [10, 20, 30, 40, 50]"
  using Concat_Take_Skip [of 2 "[10, 20, 30, 40, 50 :: int]"] by simp

section \<open>Reverse\<close>




section \<open>Distinct\<close>

lemma lookup_update: "lookup (yielded(v \<mapsto> True)) x \<longleftrightarrow> x = v \<or> lookup yielded x"
  by (simp add: lookup_def)

lemma Distinct_loop_set:
  "set (Distinct_loop yielded xs) = {x \<in> set xs. \<not> lookup yielded x}"
  by (induction xs arbitrary: yielded) (auto simp: lookup_update simp del: fun_upd_apply)

lemma Distinct_loop_distinct: "distinct (Distinct_loop yielded xs)"
  by (induction xs arbitrary: yielded)
     (simp_all add: Distinct_loop_set lookup_update del: fun_upd_apply)

lemma Distinct_loop_fixed:
  "distinct xs \<Longrightarrow> \<forall>x \<in> set xs. \<not> lookup yielded x \<Longrightarrow> Distinct_loop yielded xs = xs"
proof (induction xs arbitrary: yielded)
  case Nil
  then show ?case by simp
next
  case (Cons v rest)
  have "\<forall>x \<in> set rest. \<not> lookup (yielded(v \<mapsto> True)) x"
    using Cons.prems by (auto simp: lookup_update simp del: fun_upd_apply)
  moreover have "distinct rest"
    using Cons.prems by simp
  ultimately have "Distinct_loop (yielded(v \<mapsto> True)) rest = rest"
    by (rule Cons.IH [rotated])
  moreover have "Distinct_loop yielded (v # rest) = v # Distinct_loop (yielded(v \<mapsto> True)) rest"
    using Cons.prems by simp
  ultimately show ?case by (simp only:)
qed

lemma positions_Suc:
  "map f (filter P [0..<Suc n]) =
     (if P 0 then [f 0] else []) @ map (\<lambda>i. f (Suc i)) (filter (\<lambda>i. P (Suc i)) [0..<n])"
proof -
  have "[0..<Suc n] = 0 # map Suc [0..<n]"
    by (simp add: upt_conv_Cons map_Suc_upt del: upt_Suc)
  then show ?thesis
    by (simp add: filter_map o_def del: upt_Suc)
qed

lemma Distinct_loop_positions:
  "Distinct_loop yielded xs =
     map (\<lambda>i. xs ! i)
       (filter (\<lambda>i. \<not> lookup yielded (xs ! i) \<and> xs ! i \<notin> set (take i xs)) [0..<length xs])"
proof (induction xs arbitrary: yielded)
  case Nil
  then show ?case by simp
next
  case (Cons v rest)
  have unfolded: "map (\<lambda>i. (v # rest) ! i)
        (filter (\<lambda>i. \<not> lookup yielded ((v # rest) ! i) \<and> (v # rest) ! i \<notin> set (take i (v # rest)))
           [0..<length (v # rest)])
      = (if \<not> lookup yielded v then [v] else []) @
        map (\<lambda>i. rest ! i)
          (filter (\<lambda>i. \<not> lookup yielded (rest ! i) \<and> rest ! i \<noteq> v \<and> rest ! i \<notin> set (take i rest))
             [0..<length rest])"
    by (simp only: length_Cons positions_Suc) simp
  show ?case
  proof (cases "lookup yielded v")
    case True
    have same: "filter (\<lambda>i. \<not> lookup yielded (rest ! i) \<and> rest ! i \<noteq> v \<and> rest ! i \<notin> set (take i rest))
            [0..<length rest]
        = filter (\<lambda>i. \<not> lookup yielded (rest ! i) \<and> rest ! i \<notin> set (take i rest)) [0..<length rest]"
      using True by (intro filter_cong) auto
    have "Distinct_loop yielded (v # rest) = Distinct_loop yielded rest"
      using True by simp
    also have "\<dots> = map (\<lambda>i. rest ! i)
        (filter (\<lambda>i. \<not> lookup yielded (rest ! i) \<and> rest ! i \<notin> set (take i rest)) [0..<length rest])"
      by (rule Cons.IH)
    also have "\<dots> = map (\<lambda>i. (v # rest) ! i)
        (filter (\<lambda>i. \<not> lookup yielded ((v # rest) ! i) \<and> (v # rest) ! i \<notin> set (take i (v # rest)))
           [0..<length (v # rest)])"
      using True by (simp only: unfolded same) simp
    finally show ?thesis .
  next
    case False
    have same: "filter (\<lambda>i. \<not> lookup yielded (rest ! i) \<and> rest ! i \<noteq> v \<and> rest ! i \<notin> set (take i rest))
            [0..<length rest]
        = filter (\<lambda>i. \<not> lookup (yielded(v \<mapsto> True)) (rest ! i) \<and> rest ! i \<notin> set (take i rest))
            [0..<length rest]"
      by (intro filter_cong) (auto simp: lookup_update simp del: fun_upd_apply)
    have "Distinct_loop yielded (v # rest) = v # Distinct_loop (yielded(v \<mapsto> True)) rest"
      using False by simp
    also have "Distinct_loop (yielded(v \<mapsto> True)) rest = map (\<lambda>i. rest ! i)
        (filter (\<lambda>i. \<not> lookup (yielded(v \<mapsto> True)) (rest ! i) \<and> rest ! i \<notin> set (take i rest))
           [0..<length rest])"
      by (rule Cons.IH)
    also have "v # \<dots> = map (\<lambda>i. (v # rest) ! i)
        (filter (\<lambda>i. \<not> lookup yielded ((v # rest) ! i) \<and> (v # rest) ! i \<notin> set (take i (v # rest)))
           [0..<length (v # rest)])"
      using False by (simp only: unfolded same [symmetric]) simp
    finally show ?thesis .
  qed
qed

text \<open>
  C6. Distinct(S) yields the value at a position of \<open>S\<close> exactly when that value does
  not occur at an earlier position, in the order of the positions: the first occurrence
  of each value, every later one dropped. Hence no value is yielded twice, every value of
  \<open>S\<close> is yielded, and Distinct(Distinct(S)) yields what Distinct(S) yields.
\<close>

theorem Distinct_first_occurrences:
  "Distinct S = map (\<lambda>i. S ! i) (filter (\<lambda>i. S ! i \<notin> set (take i S)) [0..<length S]) \<and>
   distinct (Distinct S) \<and> set (Distinct S) = set S \<and>
   Distinct (Distinct S) = Distinct S"
proof -
  have never: "\<not> lookup Map.empty x" for x :: 'a
    by (simp add: lookup_def)
  have "Distinct S = map (\<lambda>i. S ! i) (filter (\<lambda>i. S ! i \<notin> set (take i S)) [0..<length S])"
    by (simp add: Distinct_def Distinct_loop_positions never)
  moreover have d: "distinct (Distinct S)"
    by (simp add: Distinct_def Distinct_loop_distinct)
  moreover have "set (Distinct S) = set S"
    by (simp add: Distinct_def Distinct_loop_set never)
  moreover have "Distinct (Distinct S) = Distinct S"
    using d Distinct_loop_fixed [of "Distinct S" Map.empty] by (simp add: Distinct_def never)
  ultimately show ?thesis by simp
qed

section \<open>RangeTime\<close>







section \<open>The ring buffer of TakeLast and SkipLast\<close>

text \<open>
  The indices of the ring are never negative once the first value is stored, so they
  are written as natural numbers in what follows, and Go's remainder is \<open>mod\<close> there.
\<close>

declare TakeLast_emit.simps [simp del]














section \<open>TakeLast and SkipLast\<close>











section \<open>Parameters that are not positive\<close>

text \<open>
  C9. A count or a step that is not positive is no error: for \<open>n \<le> 0\<close>, Take(S, n) and
  TakeLast(S, n) yield nothing, Skip(S, n) and SkipLast(S, n) yield the elements of \<open>S\<close>
  unchanged; for \<open>stepSize \<le> 0\<close>, RangeStep yields nothing, as RangeStep(0, 5, 0) and
  RangeStep(0, 5, -1) do.
\<close>

theorem nonpositive_parameters:
  assumes "n \<le> 0" "stepSize \<le> 0"
  shows "Take S n = [] \<and> TakeLast zero S n = Inr [] \<and>
         Skip S n = S \<and> SkipLast zero S n = Inr S \<and>
         RangeStep ty start stop stepSize = [] \<and>
         RangeStep ty 0 5 0 = [] \<and> RangeStep ty 0 5 (- 1) = []"
  using assms
  by (simp add: Take_def TakeLast_def Skip_def SkipLast_def RangeStep_def Empty_def)

theorem nonpositive_parameters_witness:
  "(- 2 :: int) \<le> 0 \<and> (0 :: int) \<le> 0 \<and>
   Take [1, 2, 3 :: int] (- 2) = [] \<and> TakeLast (0::int) [1, 2, 3] (- 2) = Inr [] \<and>
   Skip [1, 2, 3 :: int] (- 2) = [1, 2, 3] \<and> SkipLast (0::int) [1, 2, 3] (- 2) = Inr [1, 2, 3] \<and>
   RangeStep T_int 0 5 0 = []"
  using nonpositive_parameters [of "- 2" 0 "[1, 2, 3 :: int]" 0 T_int 0 5] by simp

section \<open>Cache over a filter that counts its calls\<close>

declare Cache_extend.simps [simp del]

lemma Filter_next_shorter:
  "Filter_next predicate xs s = (Some v, rest, s') \<Longrightarrow> length rest < length xs"
proof (induction xs arbitrary: s)
  case Nil
  then show ?case by simp
next
  case (Cons y ys)
  then show ?case
    by (cases "predicate y s") (fastforce split: if_splits)
qed

lemma Filter_next_counting:
  "Filter_next (counting p) xs s = (x, rest, s') \<Longrightarrow>
     s' + length rest = s + length xs \<and>
     (case x of
        None \<Rightarrow> filter p xs = [] \<and> rest = []
      | Some v \<Rightarrow> filter p xs = v # filter p rest)"
proof (induction xs arbitrary: s)
  case Nil
  then show ?case by auto
next
  case (Cons y ys)
  have called: "counting p y s = (p y, s + 1)"
    by (simp add: counting_def)
  show ?case
  proof (cases "p y")
    case True
    with Cons.prems called show ?thesis by auto
  next
    case False
    with Cons.prems called have "Filter_next (counting p) ys (s + 1) = (x, rest, s')"
      by simp
    from Cons.IH [OF this] False show ?thesis by (auto split: option.splits)
  qed
qed

text \<open>The whole loop of Filter calls the predicate once for each value of its source.\<close>

lemma Filter_loop_counting:
  "Filter_loop (counting p) xs s = (filter p xs, s + length xs)"
  by (induction xs arbitrary: s) (simp_all add: counting_def)

lemma Cache_extend_counting:
  assumes "Cache_extend (counting p) want c = (out, c')"
  shows "recorded c' = recorded c @ out \<and>
         out @ filter p (upstream c') = filter p (upstream c) \<and>
         effects c' + length (upstream c') = effects c + length (upstream c) \<and>
         out = (case want of None \<Rightarrow> filter p (upstream c)
                | Some k \<Rightarrow> take k (filter p (upstream c))) \<and>
         (want = None \<longrightarrow> upstream c' = [])"
  using assms
proof (induction "length (upstream c)" arbitrary: c want out c' rule: less_induct)
  case less
  show ?case
  proof (cases "want = Some 0")
    case True
    with less.prems show ?thesis
      by (subst (asm) Cache_extend.simps) auto
  next
    case False
    obtain x rest s where pulled: "Filter_next (counting p) (upstream c) (effects c) = (x, rest, s)"
      by (cases "Filter_next (counting p) (upstream c) (effects c)") auto
    note counted = Filter_next_counting [OF pulled]
    show ?thesis
    proof (cases x)
      case None
      with less.prems False pulled have "out = []" "c' = c\<lparr>upstream := rest, effects := s\<rparr>"
        by (subst (asm) Cache_extend.simps, simp)+
      with counted None show ?thesis
        by (cases want) auto
    next
      case (Some v)
      let ?c = "c\<lparr>recorded := recorded c @ [v], upstream := rest, effects := s\<rparr>"
      let ?want = "map_option (\<lambda>k. k - 1) want"
      obtain out1 c1 where rec: "Cache_extend (counting p) ?want ?c = (out1, c1)"
        by (cases "Cache_extend (counting p) ?want ?c") auto
      have "length (upstream ?c) < length (upstream c)"
        using pulled Some Filter_next_shorter [of "counting p" "upstream c" "effects c" v rest s]
        by simp
      from less.hyps [OF this rec]
      have ih: "recorded c1 = recorded ?c @ out1"
        "out1 @ filter p (upstream c1) = filter p (upstream ?c)"
        "effects c1 + length (upstream c1) = effects ?c + length (upstream ?c)"
        "out1 = (case ?want of None \<Rightarrow> filter p (upstream ?c)
                 | Some k \<Rightarrow> take k (filter p (upstream ?c)))"
        "?want = None \<longrightarrow> upstream c1 = []"
        by blast+
      from less.prems False pulled Some rec have res: "out = v # out1" "c' = c1"
        by (subst (asm) Cache_extend.simps, simp)+
      have first: "filter p (upstream c) = v # filter p rest"
        using counted Some by simp
      have total: "s + length rest = effects c + length (upstream c)"
        using counted by simp
      have "out = (case want of None \<Rightarrow> filter p (upstream c)
                   | Some k \<Rightarrow> take k (filter p (upstream c)))"
      proof (cases want)
        case None
        with ih(4) res first show ?thesis by simp
      next
        case (Some k)
        with False obtain k' where "k = Suc k'" by (cases k) auto
        with Some ih(4) res first show ?thesis by simp
      qed
      moreover have "recorded c' = recorded c @ out"
        using ih(1) res by simp
      moreover have "out @ filter p (upstream c') = filter p (upstream c)"
        using ih(2) res first by simp
      moreover have "effects c' + length (upstream c') = effects c + length (upstream c)"
        using ih(3) res total by simp
      moreover have "want = None \<longrightarrow> upstream c' = []"
        using ih(5) res by simp
      ultimately show ?thesis by blast
    qed
  qed
qed

text \<open>
  What holds of a cache over a counting filter of \<open>source\<close> after any drives: what is
  recorded and what the filter would still yield make up the filtered source, and the
  calls and the values not handed to the filter yet make up the source.
\<close>

lemma Cache_drive_counting:
  assumes "Cache_drive (counting p) want c = (out, c')"
    and "recorded c @ filter p (upstream c) = filter p source"
    and "effects c + length (upstream c) = length source"
  shows "recorded c' @ filter p (upstream c') = filter p source \<and>
         effects c' + length (upstream c') = length source \<and>
         out = (case want of None \<Rightarrow> filter p source | Some k \<Rightarrow> take k (filter p source)) \<and>
         (want = None \<longrightarrow> upstream c' = []) \<and>
         (upstream c = [] \<longrightarrow> upstream c' = [])"
proof (cases want)
  case None
  obtain out1 c1 where ext: "Cache_extend (counting p) None c = (out1, c1)"
    by (cases "Cache_extend (counting p) None c") auto
  with assms(1) None have res: "out = recorded c @ out1" "c' = c1"
    by (simp_all add: Cache_drive_def)
  from Cache_extend_counting [OF ext] assms(2,3) res show ?thesis
    by (auto simp: None)
next
  case (Some k)
  show ?thesis
  proof (cases "k \<le> length (recorded c)")
    case True
    with assms(1) Some have "out = take k (recorded c)" "c' = c"
      by (auto simp: Cache_drive_def)
    moreover have "take k (recorded c) = take k (filter p source)"
      using True assms(2) [symmetric] by simp
    ultimately show ?thesis
      using assms(2,3) Some by simp
  next
    case False
    let ?want = "Some (k - length (recorded c))"
    obtain out1 c1 where ext: "Cache_extend (counting p) ?want c = (out1, c1)"
      by (cases "Cache_extend (counting p) ?want c") auto
    with assms(1) Some False have res: "out = recorded c @ out1" "c' = c1"
      by (simp_all add: Cache_drive_def)
    from Cache_extend_counting [OF ext]
    have e1: "recorded c1 = recorded c @ out1"
      and e2: "out1 @ filter p (upstream c1) = filter p (upstream c)"
      and e3: "effects c1 + length (upstream c1) = effects c + length (upstream c)"
      and e4: "out1 = take (k - length (recorded c)) (filter p (upstream c))"
      by (simp_all only: option.case) blast+
    have "out = take k (recorded c @ filter p (upstream c))"
      using res(1) False by (simp add: e4)
    then have "out = take k (filter p source)"
      by (simp only: assms(2))
    moreover have "recorded c' @ filter p (upstream c') = filter p source"
    proof -
      have "recorded c' @ filter p (upstream c') = recorded c @ (out1 @ filter p (upstream c1))"
        by (simp add: res(2) e1)
      then show ?thesis by (simp only: e2 assms(2))
    qed
    moreover have "effects c' + length (upstream c') = length source"
      using e3 res(2) assms(3) by simp
    moreover have "upstream c = [] \<longrightarrow> upstream c' = []"
    proof
      assume "upstream c = []"
      with e2 have "filter p (upstream c1) = []" by simp
      moreover from e3 \<open>upstream c = []\<close> have "length (upstream c1) \<le> effects c" by simp
      ultimately show "upstream c' = []"
        using ext \<open>upstream c = []\<close> res(2)
        by (subst (asm) Cache_extend.simps) (auto split: if_splits)
    qed
    ultimately show ?thesis
      using Some by simp
  qed
qed

lemma Cache_drives_counting:
  assumes "Cache_drives (counting p) wants c = (outs, c')"
    and "recorded c @ filter p (upstream c) = filter p source"
    and "effects c + length (upstream c) = length source"
  shows "effects c' + length (upstream c') = length source \<and>
         outs = map (\<lambda>want. case want of None \<Rightarrow> filter p source
                            | Some k \<Rightarrow> take k (filter p source)) wants \<and>
         (None \<in> set wants \<or> upstream c = [] \<longrightarrow> upstream c' = [])"
  using assms
proof (induction wants arbitrary: c outs c')
  case Nil
  then show ?case by auto
next
  case (Cons want wants)
  obtain out c1 where one: "Cache_drive (counting p) want c = (out, c1)"
    by (cases "Cache_drive (counting p) want c") auto
  obtain outs1 c2 where more: "Cache_drives (counting p) wants c1 = (outs1, c2)"
    by (cases "Cache_drives (counting p) wants c1") auto
  from Cons.prems(1) one more have res: "outs = out # outs1" "c' = c2"
    by simp_all
  note d = Cache_drive_counting [OF one Cons.prems(2,3)]
  from d have inv: "recorded c1 @ filter p (upstream c1) = filter p source"
    "effects c1 + length (upstream c1) = length source"
    by blast+
  note ih = Cons.IH [OF more inv]
  from d ih res show ?case by auto
qed

text \<open>
  C7. A sequence made of a source and a filter that counts its calls, wrapped by Cache
  and driven any number of times, each time by a consumer that takes all the values or
  stops after some of them: every drive yields the same values, the filter is called at
  most once for each value of the source (each call takes a value the filter has not
  seen), a drive within the recorded positions calls nothing, and after a full drive the
  filter has been called exactly once for each value of the source, whatever drives
  follow.
\<close>

theorem Cache_at_most_once:
  assumes "Cache_drives (counting p) wants (Cache source 0) = (outs, c)"
  shows "effects c \<le> length source \<and>
         effects c = length source - length (upstream c) \<and>
         outs = map (\<lambda>want. case want of None \<Rightarrow> filter p source
                            | Some k \<Rightarrow> take k (filter p source)) wants \<and>
         (None \<in> set wants \<longrightarrow> effects c = length source) \<and>
         (\<forall>k \<le> length (recorded c). Cache_drive (counting p) (Some k) c = (take k (recorded c), c))"
proof -
  have "recorded (Cache source 0) @ filter p (upstream (Cache source (0::nat))) = filter p source"
    and "effects (Cache source (0::nat)) + length (upstream (Cache source (0::nat))) = length source"
    by (simp_all add: Cache_def)
  from Cache_drives_counting [OF assms this]
  have "effects c + length (upstream c) = length source"
    and "outs = map (\<lambda>want. case want of None \<Rightarrow> filter p source
                            | Some k \<Rightarrow> take k (filter p source)) wants"
    and "None \<in> set wants \<longrightarrow> upstream c = []"
    by blast+
  moreover have "\<forall>k \<le> length (recorded c).
      Cache_drive (counting p) (Some k) c = (take k (recorded c), c)"
    by (simp add: Cache_drive_def)
  ultimately show ?thesis by auto
qed

theorem Cache_at_most_once_witness:
  "fst (Cache_drives (counting (\<lambda>v::int. v mod 2 = 0)) [None, Some 3] (Cache [1, 2, 3, 4, 5, 6] 0))
     = [[2, 4, 6], [2, 4, 6]] \<and>
   effects (snd (Cache_drives (counting (\<lambda>v::int. v mod 2 = 0)) [None, Some 3]
     (Cache [1, 2, 3, 4, 5, 6] 0))) = 6"
proof -
  let ?run = "Cache_drives (counting (\<lambda>v::int. v mod 2 = 0)) [None, Some 3]
     (Cache [1, 2, 3, 4, 5, 6] 0)"
  have "?run = (fst ?run, snd ?run)" by simp
  from Cache_at_most_once [OF this] show ?thesis by simp
qed

end
